theory Spec2Isabelle
  imports Complex_Main "HOL-Library.Log_Nat" "HOL-Library.Multiset"
begin

section \<open>Python floats\<close>

text \<open>
  The weights of \<^verbatim>\<open>_weighted_set.py\<close> are Python floats, that is IEEE 754 binary64
  values. Every finite double is an integer multiple of the smallest subnormal
  \<open>2 ^ -1074\<close>, so a finite double is written \<open>Finite k\<close> for the value
  \<open>k * 2 ^ -1074\<close>: \<open>Finite 1\<close> is \<open>5e-324\<close>, \<open>Finite (2 ^ 1074)\<close> is \<open>1.0\<close>, and the
  largest double is \<open>Finite ((2 ^ 53 - 1) * 2 ^ 2045)\<close>. The doubles are the values
  \<open>Finite k\<close> where \<open>k\<close> has at most 53 significant bits and \<open>\<bar>k\<bar> < 2 ^ 2098\<close>
  (predicate \<open>is_double\<close> below); the theorems that do not ask for \<open>is_double\<close> hold for
  every \<open>k\<close>, the doubles among them.

  The two zeros \<open>0.0\<close> and \<open>-0.0\<close> are both \<open>Finite 0\<close>: the class only ever compares a
  zero (\<^verbatim>\<open>== 0\<close>, \<^verbatim>\<open>< 0\<close>), multiplies by it or adds it, never divides by it,
  and these do not tell the two zeros apart. All NaNs are the one value \<open>NaN\<close>.
  Integer arguments such as \<^verbatim>\<open>add("a", 1)\<close> are read as the float of the same value.
\<close>

datatype pyfloat = Finite int | PInf | NInf | NaN

datatype error = ValueError | ZeroDivisionError | OverflowError | TypeError | KeyError

text \<open>Comparisons: every comparison with a NaN is false.\<close>

definition flt :: "pyfloat \<Rightarrow> pyfloat \<Rightarrow> bool" where
  "flt x y =
     (case (x, y) of
        (Finite a, Finite b) \<Rightarrow> a < b
      | (Finite a, PInf) \<Rightarrow> True
      | (NInf, Finite b) \<Rightarrow> True
      | (NInf, PInf) \<Rightarrow> True
      | _ \<Rightarrow> False)"

definition fgt :: "pyfloat \<Rightarrow> pyfloat \<Rightarrow> bool" where
  "fgt x y = flt y x"

definition feq :: "pyfloat \<Rightarrow> pyfloat \<Rightarrow> bool" where
  "feq x y = (x \<noteq> NaN \<and> x = y)"

definition fle :: "pyfloat \<Rightarrow> pyfloat \<Rightarrow> bool" where
  "fle x y = (flt x y \<or> feq x y)"

definition fge :: "pyfloat \<Rightarrow> pyfloat \<Rightarrow> bool" where
  "fge x y = fle y x"

text \<open>\<^verbatim>\<open>math.isfinite\<close>: neither an infinity nor a NaN.\<close>

fun isfinite :: "pyfloat \<Rightarrow> bool" where
  "isfinite (Finite k) = True"
| "isfinite PInf = False"
| "isfinite NInf = False"
| "isfinite NaN = False"

text \<open>
  Rounding to nearest, ties to even: \<open>round_half_even n d\<close> is the integer nearest to
  \<open>n / d\<close> (for \<open>0 \<le> n\<close> and \<open>0 < d\<close>).
\<close>

definition round_half_even :: "int \<Rightarrow> int \<Rightarrow> int" where
  "round_half_even n d =
     (let q = n div d; r = n mod d
      in if 2 * r < d then q else if d < 2 * r then q + 1 else if even q then q else q + 1)"

text \<open>
  \<open>round_pos n d\<close> rounds the exact value \<open>n / d\<close> (in units of \<open>2 ^ -1074\<close>, \<open>0 \<le> n\<close>,
  \<open>0 < d\<close>) to a double: a value below \<open>2 ^ 53\<close> units is rounded to an integer number of
  units (subnormals and the first binade); a larger one keeps 53 significant bits, which
  drops the \<open>s\<close> low bits of the quotient. A rounded value of \<open>2 ^ 2098\<close> units
  (that is \<open>2 ^ 1024\<close>) or more overflows to infinity.
\<close>

definition round_pos :: "int \<Rightarrow> int \<Rightarrow> pyfloat" where
  "round_pos n d =
     (let s = floorlog 2 (nat (n div d)) - 53;
          m = round_half_even n (d * 2 ^ s)
      in if 2 ^ 2098 \<le> m * 2 ^ s then PInf else Finite (m * 2 ^ s))"

fun fneg :: "pyfloat \<Rightarrow> pyfloat" where
  "fneg (Finite k) = Finite (- k)"
| "fneg PInf = NInf"
| "fneg NInf = PInf"
| "fneg NaN = NaN"

definition fround :: "int \<Rightarrow> int \<Rightarrow> pyfloat" where
  "fround n d = (if 0 \<le> n then round_pos n d else fneg (round_pos (- n) d))"

text \<open>A value is a double when rounding leaves it as it is.\<close>

fun is_double :: "pyfloat \<Rightarrow> bool" where
  "is_double (Finite k) = (fround k 1 = Finite k)"
| "is_double PInf = True"
| "is_double NInf = True"
| "is_double NaN = True"

text \<open>
  A decimal literal \<^verbatim>\<open>MeE\<close> of the source text is the double nearest to \<open>M * 10 ^ E\<close>:
  \<^verbatim>\<open>1e200\<close> is \<open>float_of_decimal 1 200\<close>, \<^verbatim>\<open>1.1\<close> is \<open>float_of_decimal 11 (-1)\<close>.
\<close>

definition float_of_decimal :: "int \<Rightarrow> int \<Rightarrow> pyfloat" where
  "float_of_decimal m e =
     (if 0 \<le> e then fround (m * 10 ^ nat e * 2 ^ 1074) 1
      else fround (m * 2 ^ 1074) (10 ^ nat (- e)))"

text \<open>The float \<^verbatim>\<open>1.0\<close>.\<close>

definition float_one :: pyfloat where
  "float_one = Finite (2 ^ 1074)"

text \<open>The arithmetic of floats: the exact result, rounded.\<close>

fun fmul :: "pyfloat \<Rightarrow> pyfloat \<Rightarrow> pyfloat" where
  "fmul (Finite a) (Finite b) = fround (a * b) (2 ^ 1074)"
| "fmul (Finite a) PInf = (if a = 0 then NaN else if 0 < a then PInf else NInf)"
| "fmul (Finite a) NInf = (if a = 0 then NaN else if 0 < a then NInf else PInf)"
| "fmul PInf (Finite b) = (if b = 0 then NaN else if 0 < b then PInf else NInf)"
| "fmul NInf (Finite b) = (if b = 0 then NaN else if 0 < b then NInf else PInf)"
| "fmul PInf PInf = PInf"
| "fmul PInf NInf = NInf"
| "fmul NInf PInf = NInf"
| "fmul NInf NInf = PInf"
| "fmul NaN y = NaN"
| "fmul x NaN = NaN"

text \<open>Python's \<^verbatim>\<open>/\<close> on floats raises \<^verbatim>\<open>ZeroDivisionError\<close> on a zero divisor.\<close>

fun ftruediv :: "pyfloat \<Rightarrow> pyfloat \<Rightarrow> error + pyfloat" where
  "ftruediv (Finite a) (Finite b) =
     (if b = 0 then Inl ZeroDivisionError
      else if 0 < b then Inr (fround (a * 2 ^ 1074) b)
      else Inr (fround (- a * 2 ^ 1074) (- b)))"
| "ftruediv PInf (Finite b) =
     (if b = 0 then Inl ZeroDivisionError else if 0 < b then Inr PInf else Inr NInf)"
| "ftruediv NInf (Finite b) =
     (if b = 0 then Inl ZeroDivisionError else if 0 < b then Inr NInf else Inr PInf)"
| "ftruediv NaN (Finite b) = (if b = 0 then Inl ZeroDivisionError else Inr NaN)"
| "ftruediv (Finite a) PInf = Inr (Finite 0)"
| "ftruediv (Finite a) NInf = Inr (Finite 0)"
| "ftruediv PInf PInf = Inr NaN"
| "ftruediv PInf NInf = Inr NaN"
| "ftruediv NInf PInf = Inr NaN"
| "ftruediv NInf NInf = Inr NaN"
| "ftruediv NaN y = Inr NaN"
| "ftruediv x NaN = Inr NaN"

fun fadd :: "pyfloat \<Rightarrow> pyfloat \<Rightarrow> pyfloat" where
  "fadd (Finite a) (Finite b) = fround (a + b) 1"
| "fadd (Finite a) PInf = PInf"
| "fadd (Finite a) NInf = NInf"
| "fadd PInf (Finite b) = PInf"
| "fadd NInf (Finite b) = NInf"
| "fadd PInf PInf = PInf"
| "fadd PInf NInf = NaN"
| "fadd NInf PInf = NaN"
| "fadd NInf NInf = NInf"
| "fadd NaN y = NaN"
| "fadd x NaN = NaN"

text \<open>
  \<^verbatim>\<open>x in (a, b)\<close> on a tuple is true when \<^verbatim>\<open>x is e or x == e\<close> for an element
  \<^verbatim>\<open>e\<close>. Where the class uses it, \<^verbatim>\<open>x\<close> is the float that \<^verbatim>\<open>*\<close> or
  \<^verbatim>\<open>/\<close> has just created, a new object, so \<^verbatim>\<open>x is e\<close> is false and what is left
  is \<^verbatim>\<open>x == e\<close>.
\<close>

definition py_in :: "pyfloat \<Rightarrow> pyfloat list \<Rightarrow> bool" where
  "py_in x es = list_ex (\<lambda>e. feq x e) es"

section \<open>The dictionary of weights\<close>

text \<open>
  \<^verbatim>\<open>self._weights\<close> is a Python dict, which keeps its keys in insertion order: an
  association list with distinct keys. Assigning to a key that is present keeps its
  place; a new key goes to the end.
\<close>

type_synonym 'k dict = "('k \<times> pyfloat) list"

fun dict_set :: "'k dict \<Rightarrow> 'k \<Rightarrow> pyfloat \<Rightarrow> 'k dict" where
  "dict_set [] k v = [(k, v)]"
| "dict_set ((k', v') # d) k v =
     (if k' = k then (k, v) # d else (k', v') # dict_set d k v)"

definition wf_dict :: "'k dict \<Rightarrow> bool" where
  "wf_dict d = distinct (map fst d)"

text \<open>
  A call either returns or raises; the second component of a method's result is
  \<^verbatim>\<open>self._weights\<close> after the call, in both cases.
\<close>

datatype outcome = Returned | Raised error

section \<open>The methods of WeightedSet\<close>

definition contains :: "'k dict \<Rightarrow> 'k \<Rightarrow> bool" where
  "contains ws item = (map_of ws item \<noteq> None)"

definition getitem :: "'k dict \<Rightarrow> 'k \<Rightarrow> error + pyfloat" where
  "getitem ws key = (case map_of ws key of None \<Rightarrow> Inl KeyError | Some w \<Rightarrow> Inr w)"

fun imul_loop :: "'k dict \<Rightarrow> pyfloat \<Rightarrow> 'k dict \<Rightarrow> error + 'k dict" where
  "imul_loop [] scale scaled_weights = Inr scaled_weights"
| "imul_loop ((key, weight) # items) scale scaled_weights =
     (let new_weight = fmul weight scale
      in if feq new_weight (Finite 0) then imul_loop items scale scaled_weights
         else if py_in new_weight [PInf, NaN] then Inl OverflowError
         else imul_loop items scale (dict_set scaled_weights key new_weight))"

definition imul :: "'k dict \<Rightarrow> pyfloat \<Rightarrow> outcome \<times> 'k dict" where
  "imul ws scale =
     (if flt scale (Finite 0) then (Raised ValueError, ws)
      else case imul_loop ws scale [] of
             Inl e \<Rightarrow> (Raised e, ws)
           | Inr scaled_weights \<Rightarrow> (Returned, scaled_weights))"

fun itruediv_loop :: "'k dict \<Rightarrow> pyfloat \<Rightarrow> 'k dict \<Rightarrow> error + 'k dict" where
  "itruediv_loop [] scale scaled_weights = Inr scaled_weights"
| "itruediv_loop ((key, weight) # items) scale scaled_weights =
     (case ftruediv weight scale of
        Inl e \<Rightarrow> Inl e
      | Inr new_weight \<Rightarrow>
          if feq new_weight (Finite 0) then itruediv_loop items scale scaled_weights
          else if py_in new_weight [PInf, NaN] then Inl OverflowError
          else itruediv_loop items scale (dict_set scaled_weights key new_weight))"

definition itruediv :: "'k dict \<Rightarrow> pyfloat \<Rightarrow> outcome \<times> 'k dict" where
  "itruediv ws scale =
     (if feq scale (Finite 0) then (Raised ZeroDivisionError, ws)
      else if flt scale (Finite 0) then (Raised ValueError, ws)
      else case itruediv_loop ws scale [] of
             Inl e \<Rightarrow> (Raised e, ws)
           | Inr scaled_weights \<Rightarrow> (Returned, scaled_weights))"

definition add :: "'k dict \<Rightarrow> 'k \<Rightarrow> pyfloat \<Rightarrow> outcome \<times> 'k dict" where
  "add ws key weight =
     (if flt weight (Finite 0) then (Raised ValueError, ws)
      else if feq weight (Finite 0) then (Returned, ws)
      else case map_of ws key of
             Some current \<Rightarrow> (Returned, dict_set ws key (fadd current weight))
           | None \<Rightarrow> (Returned, dict_set ws key weight))"

definition clamp :: "'k dict \<Rightarrow> pyfloat \<Rightarrow> outcome \<times> 'k dict" where
  "clamp ws limit =
     (if feq limit (Finite 0) then (Raised ValueError, ws)
      else if flt limit (Finite 0) then (Raised ValueError, ws)
      else let oversize_keys = map fst (filter (\<lambda>(key, weight). fgt weight limit) ws)
           in (Returned, fold (\<lambda>key d. dict_set d key limit) oversize_keys ws))"

definition copy :: "'k dict \<Rightarrow> 'k dict" where
  "copy ws = fold (\<lambda>(key, weight) d. dict_set d key weight) ws []"

text \<open>
  \<^verbatim>\<open>sorted(iterable, key=..., reverse=...)\<close> is a stable sort that compares keys with
  \<^verbatim>\<open><\<close> only. It is modelled by insertion from the left: each element in turn moves
  left past the elements it is less than (\<open>move_left\<close> works on the sorted prefix
  held in reverse). With \<^verbatim>\<open>reverse=True\<close> CPython reverses the list, sorts it
  ascending and reverses the result, which keeps elements of equal key in their original
  order. Where \<^verbatim>\<open><\<close> is a total preorder on the keys (floats without NaN) every
  stable sort returns this list.
\<close>

fun move_left :: "('a \<Rightarrow> 'a \<Rightarrow> bool) \<Rightarrow> 'a \<Rightarrow> 'a list \<Rightarrow> 'a list" where
  "move_left lt x [] = [x]"
| "move_left lt x (y # ys) = (if lt x y then y # move_left lt x ys else x # y # ys)"

definition list_sort :: "('a \<Rightarrow> 'a \<Rightarrow> bool) \<Rightarrow> 'a list \<Rightarrow> 'a list" where
  "list_sort lt xs = rev (fold (move_left lt) xs [])"

definition sorted_py :: "('a \<Rightarrow> 'a \<Rightarrow> bool) \<Rightarrow> bool \<Rightarrow> 'a list \<Rightarrow> 'a list" where
  "sorted_py lt reverse xs = (if reverse then rev (list_sort lt (rev xs)) else list_sort lt xs)"

text \<open>\<^verbatim>\<open>sorted(self._weights.items(), key=itemgetter(1), reverse=True)\<close>\<close>

definition sorted_items :: "'k dict \<Rightarrow> 'k dict" where
  "sorted_items ws = sorted_py (\<lambda>a b. flt (snd a) (snd b)) True ws"

definition keys :: "'k dict \<Rightarrow> 'k list" where
  "keys ws = map fst (sorted_items ws)"

text \<open>
  \<^verbatim>\<open>update\<close> reads other WeightedSet objects, and one of them may be \<^verbatim>\<open>self\<close>:
  the objects live in a heap, from addresses to the \<^verbatim>\<open>_weights\<close> of the WeightedSet
  at that address. An argument of \<^verbatim>\<open>update\<close> is a reference to a WeightedSet or an
  object of another type. \<^verbatim>\<open>ws.keys()\<close> is evaluated once, before the inner loop;
  \<^verbatim>\<open>ws[key]\<close> reads the heap as it is when the loop gets to \<^verbatim>\<open>key\<close>.
\<close>

type_synonym 'k heap = "nat \<Rightarrow> 'k dict"

datatype pyarg = WS nat | NotWS

fun update_keys :: "'k heap \<Rightarrow> nat \<Rightarrow> nat \<Rightarrow> 'k list \<Rightarrow> outcome \<times> 'k heap" where
  "update_keys h self ws [] = (Returned, h)"
| "update_keys h self ws (key # ks) =
     (case getitem (h ws) key of
        Inl e \<Rightarrow> (Raised e, h)
      | Inr weight \<Rightarrow>
          (case add (h self) key weight of
             (Raised e, d) \<Rightarrow> (Raised e, h(self := d))
           | (Returned, d) \<Rightarrow> update_keys (h(self := d)) self ws ks))"

fun update :: "'k heap \<Rightarrow> nat \<Rightarrow> pyarg list \<Rightarrow> outcome \<times> 'k heap" where
  "update h self [] = (Returned, h)"
| "update h self (NotWS # others) = (Raised TypeError, h)"
| "update h self (WS ws # others) =
     (case update_keys h self ws (keys (h ws)) of
        (Raised e, h') \<Rightarrow> (Raised e, h')
      | (Returned, h') \<Rightarrow> update h' self others)"

section \<open>Sequences of calls\<close>

text \<open>
  A program constructs WeightedSets and calls their public methods. Every address holds
  an empty WeightedSet at first (construction takes an unused address); a call changes
  the heap whether it returns or raises, and the program goes on with the next call.
  \<open>Copy a b\<close> is \<^verbatim>\<open>b = a.copy()\<close>.
\<close>

datatype 'k call =
    Add nat 'k pyfloat
  | ScaleBy nat pyfloat
  | ScaleByInverse nat pyfloat
  | Clamp nat pyfloat
  | Copy nat nat
  | Update nat "pyarg list"

definition empty_heap :: "'k heap" where
  "empty_heap = (\<lambda>a. [])"

fun step :: "'k heap \<Rightarrow> 'k call \<Rightarrow> 'k heap" where
  "step h (Add a key weight) = h(a := snd (add (h a) key weight))"
| "step h (ScaleBy a scale) = h(a := snd (imul (h a) scale))"
| "step h (ScaleByInverse a scale) = h(a := snd (itruediv (h a) scale))"
| "step h (Clamp a limit) = h(a := snd (clamp (h a) limit))"
| "step h (Copy a b) = h(b := copy (h a))"
| "step h (Update a others) = snd (update h a others)"

definition run :: "'k call list \<Rightarrow> 'k heap" where
  "run calls = fold (\<lambda>c h. step h c) calls empty_heap"

section \<open>Invariants\<close>

text \<open>Invariant I1 of the specification: every weight is greater than zero and finite.\<close>

definition I1 :: "'k dict \<Rightarrow> bool" where
  "I1 ws = list_all (\<lambda>(key, weight). fgt weight (Finite 0) \<and> isfinite weight) ws"

text \<open>What the code keeps: no weight is zero and no weight is less than zero.\<close>

definition no_weight_le_zero :: "'k dict \<Rightarrow> bool" where
  "no_weight_le_zero ws =
     list_all (\<lambda>(key, weight). \<not> flt weight (Finite 0) \<and> \<not> feq weight (Finite 0)) ws"

text \<open>The invariant of the dictionary: distinct keys, and no weight zero or below.\<close>

definition inv :: "'k dict \<Rightarrow> bool" where
  "inv d = (wf_dict d \<and> no_weight_le_zero d)"

definition no_nan :: "'k dict \<Rightarrow> bool" where
  "no_nan ws = list_all (\<lambda>(key, weight). weight \<noteq> NaN) ws"

section \<open>Rounding\<close>

lemma rhe_ge_div: "0 < d \<Longrightarrow> n div d \<le> round_half_even n d"
  by (simp add: round_half_even_def Let_def)

lemma rhe_nonneg: "0 \<le> n \<Longrightarrow> 0 < d \<Longrightarrow> 0 \<le> round_half_even n d"
  using rhe_ge_div [of d n] pos_imp_zdiv_nonneg_iff [of d n] by linarith

lemma rhe_exact: "0 < d \<Longrightarrow> round_half_even (k * d) d = k"
  by (simp add: round_half_even_def Let_def)

lemma round_pos_cases:
  assumes "0 \<le> n" "0 < d"
  shows "round_pos n d = PInf \<or> (\<exists>m\<ge>0. round_pos n d = Finite m)"
proof -
  let ?s = "floorlog 2 (nat (n div d)) - 53"
  have "0 < d * 2 ^ ?s" using assms by simp
  then have "0 \<le> round_half_even n (d * 2 ^ ?s)" using assms rhe_nonneg by blast
  then show ?thesis by (simp add: round_pos_def Let_def)
qed

lemma excess_le:
  assumes "1 \<le> (q::int)"
  shows "2 ^ (floorlog 2 (nat q) - 53) \<le> q"
proof -
  have "0 < nat q" using assms by simp
  then have "(2::nat) ^ (floorlog 2 (nat q) - 1) \<le> nat q"
    using floorlog_bounds [of "nat q" 2] by simp
  moreover have "(2::nat) ^ (floorlog 2 (nat q) - 53) \<le> 2 ^ (floorlog 2 (nat q) - 1)"
    by (rule power_increasing) auto
  ultimately have "(2::nat) ^ (floorlog 2 (nat q) - 53) \<le> nat q" by linarith
  then have "int (2 ^ (floorlog 2 (nat q) - 53)) \<le> q" using assms by linarith
  then show ?thesis by simp
qed

lemma round_pos_pos:
  assumes "0 < d" "d \<le> n"
  shows "round_pos n d = PInf \<or> (\<exists>m>0. round_pos n d = Finite m)"
proof -
  let ?q = "n div d"
  let ?s = "floorlog 2 (nat ?q) - 53"
  let ?m = "round_half_even n (d * 2 ^ ?s)"
  have q: "1 \<le> ?q" using assms pos_imp_zdiv_pos_iff [of d n] by linarith
  have "(2::int) ^ ?s \<le> ?q" by (rule excess_le [OF q])
  then have "1 \<le> ?q div 2 ^ ?s" using pos_imp_zdiv_pos_iff [of "2 ^ ?s" ?q] by simp
  moreover have "n div (d * 2 ^ ?s) = ?q div 2 ^ ?s"
    using assms by (simp add: zdiv_zmult2_eq)
  moreover have "n div (d * 2 ^ ?s) \<le> ?m" using assms by (intro rhe_ge_div) simp
  ultimately have "0 < ?m" by linarith
  then have "0 < ?m * 2 ^ ?s" by simp
  then show ?thesis by (simp add: round_pos_def Let_def)
qed

lemma round_pos_exact_small:
  assumes "0 < d" "0 \<le> k" "k < 2 ^ 53"
  shows "round_pos (k * d) d = Finite k"
proof -
  have "nat k < 2 ^ 53" using assms by (simp add: nat_less_iff)
  then have "floorlog 2 (nat k) \<le> 53" by (simp add: floorlog_le_iff)
  then have s: "floorlog 2 (nat k) - 53 = 0" by simp
  have "k < 2 ^ 2098" using assms(3) power_strict_increasing [of 53 2098 "2::int"] by linarith
  then show ?thesis using assms s by (simp add: round_pos_def Let_def rhe_exact)
qed

lemma round_pos_zero:
  assumes "0 \<le> n" "2 * n < d"
  shows "round_pos n d = Finite 0"
proof -
  have nd: "n < d" using assms by linarith
  then have q: "n div d = 0" and r: "n mod d = n" using assms by simp_all
  have "floorlog 2 (nat 0) = 0" by (simp add: floorlog_def)
  then show ?thesis using assms q r by (simp add: round_pos_def Let_def round_half_even_def)
qed

lemma le_div_int: "0 < (d::int) \<Longrightarrow> p * d \<le> n \<Longrightarrow> p \<le> n div d"
  using zdiv_mono1 [of "p * d" n d] by simp

lemma rounded_ge_power:
  assumes "0 < d" "2 ^ e * d \<le> n" "52 \<le> e"
  shows "2 ^ e \<le> round_half_even n (d * 2 ^ (floorlog 2 (nat (n div d)) - 53))
                  * 2 ^ (floorlog 2 (nat (n div d)) - 53)"
proof -
  let ?q = "n div d"
  let ?b = "floorlog 2 (nat ?q)"
  let ?s = "?b - 53"
  let ?m = "round_half_even n (d * 2 ^ ?s)"
  have q: "2 ^ e \<le> ?q" using assms le_div_int by blast
  then have qn: "(2::nat) ^ e \<le> nat ?q" by (simp add: le_nat_iff)
  have b: "Suc e \<le> ?b" by (rule floorlog_ge_SucI [OF qn]) simp
  have "0 < ?q" using q zero_less_power [of "2::int" e] by linarith
  then have "0 < nat ?q" by simp
  then have "(2::nat) ^ (?b - 1) \<le> nat ?q" using floorlog_bounds [of "nat ?q" 2] by simp
  then have lo: "(2::int) ^ (?b - 1) \<le> ?q" by (simp add: le_nat_iff)
  have "?b - 1 = 52 + ?s" using b assms(3) by simp
  then have "(2::int) ^ 52 * 2 ^ ?s \<le> ?q" using lo by (simp only: power_add)
  then have "2 ^ 52 \<le> ?q div 2 ^ ?s"
    using le_div_int [of "2 ^ ?s" "2 ^ 52" ?q] by simp
  moreover have "n div (d * 2 ^ ?s) = ?q div 2 ^ ?s"
    using assms by (simp add: zdiv_zmult2_eq)
  moreover have "n div (d * 2 ^ ?s) \<le> ?m" using assms by (intro rhe_ge_div) simp
  ultimately have "2 ^ 52 \<le> ?m" by linarith
  then have "2 ^ 52 * 2 ^ ?s \<le> ?m * (2::int) ^ ?s" by (intro mult_right_mono) simp_all
  moreover have "(2::int) ^ e \<le> 2 ^ (52 + ?s)" using b by (intro power_increasing) auto
  ultimately show ?thesis by (simp only: power_add)
qed

lemma round_pos_overflow:
  assumes "0 < d" "2 ^ 2098 * d \<le> n"
  shows "round_pos n d = PInf"
  unfolding round_pos_def Let_def
  using rounded_ge_power [OF assms] by (simp del: power_numeral)

lemma rhe_eqI:
  assumes d: "0 < d" and lo: "(2 * m - 1) * d < 2 * n" and hi: "2 * n < (2 * m + 1) * d"
  shows "round_half_even n d = m"
proof -
  let ?q = "n div d"
  let ?r = "n mod d"
  have n: "n = ?q * d + ?r" by simp
  have r: "0 \<le> ?r" "?r < d" using d by simp_all
  have "2 * ?q * d \<le> 2 * n" using n r by (metis add.commute le_add_same_cancel2 mult.assoc mult_le_cancel_left_pos zero_less_numeral)
  then have "2 * ?q * d < (2 * m + 1) * d" using hi by linarith
  then have "2 * ?q < 2 * m + 1" using d by (simp add: mult_less_cancel_right)
  then have qm: "?q \<le> m" by linarith
  have "2 * n < 2 * (?q + 1) * d"
  proof -
    have "n < ?q * d + d" using n r by linarith
    then show ?thesis by (simp add: algebra_simps)
  qed
  then have "(2 * m - 1) * d < (2 * ?q + 2) * d" using lo by (simp add: algebra_simps)
  then have "2 * m - 1 < 2 * ?q + 2" using d by (simp add: mult_less_cancel_right)
  then have mq: "m \<le> ?q + 1" by linarith
  have n2: "2 * n = 2 * ?q * d + 2 * ?r"
  proof -
    have "2 * n = 2 * (?q * d + ?r)" by simp
    also have "\<dots> = 2 * ?q * d + 2 * ?r" by (simp only: distrib_left mult.assoc)
    finally show ?thesis .
  qed
  show ?thesis
  proof (cases "m = ?q")
    case True
    have "2 * ?q * d + 2 * ?r < 2 * ?q * d + d" using hi n2 True by (simp add: algebra_simps)
    then have "2 * ?r < d" by linarith
    then show ?thesis using True by (simp add: round_half_even_def Let_def)
  next
    case False
    then have m: "m = ?q + 1" using qm mq by linarith
    have "(2 * ?q + 1) * d < 2 * ?q * d + 2 * ?r" using lo n2 m by (simp add: algebra_simps)
    then have "d < 2 * ?r" by (simp add: algebra_simps)
    then show ?thesis using m by (simp add: round_half_even_def Let_def)
  qed
qed

lemma div_less_int: "0 < (d::int) \<Longrightarrow> n < p * d \<Longrightarrow> n div d < p"
  by (metis div_mult_self_is_m mult.commute zdiv_mono1 not_less le_div_int less_le_trans
      mult_less_cancel_right_pos  order_refl div_mult_mod_eq add.commute pos_mod_sign
      le_add_same_cancel1 mult_right_mono)

lemma round_pos_eqI:
  assumes d: "0 < d" and lo: "2 ^ (52 + s) * d \<le> n" and hi: "n < 2 ^ (53 + s) * d"
    and r1: "(2 * m - 1) * (d * 2 ^ s) < 2 * n" and r2: "2 * n < (2 * m + 1) * (d * 2 ^ s)"
    and fin: "m * 2 ^ s < 2 ^ 2098"
  shows "round_pos n d = Finite (m * 2 ^ s)"
proof -
  let ?q = "n div d"
  have q1: "2 ^ (52 + s) \<le> ?q" using d lo by (rule le_div_int)
  have q2: "?q < 2 ^ (53 + s)" using d hi by (rule div_less_int)
  have "(2::nat) ^ (52 + s) \<le> nat ?q" using q1 by (simp add: le_nat_iff)
  then have "Suc (52 + s) \<le> floorlog 2 (nat ?q)" by (rule floorlog_ge_SucI) simp
  moreover have "nat ?q < 2 ^ (53 + s)" using q2 by (simp add: nat_less_iff)
  then have "floorlog 2 (nat ?q) \<le> 53 + s" by (simp add: floorlog_le_iff)
  ultimately have s: "floorlog 2 (nat ?q) - 53 = s" by simp
  have "0 < d * 2 ^ s" using d by simp
  then have m: "round_half_even n (d * 2 ^ s) = m" using r1 r2 by (rule rhe_eqI)
  show ?thesis unfolding round_pos_def Let_def s m using fin by (simp del: power_numeral)
qed

section \<open>Error guards of the scaling operators\<close>

text \<open>
  C7. \<^verbatim>\<open>scale_by(s)\<close> with \<open>s < 0\<close> raises \<^verbatim>\<open>ValueError\<close> (InvalidArgument);
  \<^verbatim>\<open>scale_by_inverse(0)\<close> raises \<^verbatim>\<open>ZeroDivisionError\<close>, which is another error than
  \<^verbatim>\<open>ValueError\<close>; \<^verbatim>\<open>scale_by_inverse(d)\<close> with \<open>d < 0\<close> raises \<^verbatim>\<open>ValueError\<close>; in each
  of the three cases the mapping after the call is the mapping before it.
\<close>

theorem scale_guards:
  "(flt s (Finite 0) \<longrightarrow> imul ws s = (Raised ValueError, ws))
   \<and> itruediv ws (Finite 0) = (Raised ZeroDivisionError, ws)
   \<and> ZeroDivisionError \<noteq> ValueError
   \<and> (flt d (Finite 0) \<longrightarrow> itruediv ws d = (Raised ValueError, ws))"
  by (auto simp: imul_def itruediv_def feq_def flt_def split: pyfloat.splits)

theorem scale_guards_witness:
  "flt (Finite (- 3)) (Finite 0)
   \<and> imul [(''a'', Finite 5)] (Finite (- 3)) = (Raised ValueError, [(''a'', Finite 5)])
   \<and> itruediv [(''a'', Finite 5)] (Finite 0) = (Raised ZeroDivisionError, [(''a'', Finite 5)])
   \<and> itruediv [(''a'', Finite 5)] (Finite (- 3)) = (Raised ValueError, [(''a'', Finite 5)])"
  using scale_guards [of "Finite (- 3)" "[(''a'', Finite 5)]" "Finite (- 3)"]
  by (simp add: flt_def)

section \<open>The invariant of the reachable sets\<close>

lemma fround_nonneg:
  "0 \<le> n \<Longrightarrow> 0 < d \<Longrightarrow> fround n d = PInf \<or> (\<exists>m\<ge>0. fround n d = Finite m)"
  by (simp add: fround_def round_pos_cases)

lemma fround_pos:
  "0 < d \<Longrightarrow> d \<le> n \<Longrightarrow> fround n d = PInf \<or> (\<exists>m>0. fround n d = Finite m)"
  using round_pos_pos [of d n] by (simp add: fround_def)

lemma not_le_zero_iff:
  "(\<not> flt w (Finite 0) \<and> \<not> feq w (Finite 0)) = (w = PInf \<or> w = NaN \<or> (\<exists>k>0. w = Finite k))"
  by (cases w) (auto simp: flt_def feq_def)

lemma not_lt_zero_iff:
  "(\<not> flt w (Finite 0)) = (w = PInf \<or> w = NaN \<or> (\<exists>k\<ge>0. w = Finite k))"
  by (cases w) (auto simp: flt_def)

lemma fmul_not_neg:
  assumes "\<not> flt w (Finite 0)" "\<not> flt s (Finite 0)"
  shows "\<not> flt (fmul w s) (Finite 0)"
proof -
  consider (ff) a b where "w = Finite a" "0 \<le> a" "s = Finite b" "0 \<le> b"
    | (other) "w = PInf \<or> w = NaN \<or> s = PInf \<or> s = NaN"
    using assms by (auto simp: not_lt_zero_iff)
  then show ?thesis
  proof cases
    case ff
    then have "0 \<le> a * b" by simp
    then show ?thesis using ff fround_nonneg [of "a * b" "2 ^ 1074"]
      by (auto simp: flt_def)
  next
    case other
    then show ?thesis using assms
      by (cases w; cases s) (auto simp: flt_def)
  qed
qed

lemma ftruediv_not_neg:
  assumes "\<not> flt w (Finite 0)" "\<not> flt s (Finite 0)" "\<not> feq s (Finite 0)"
  shows "\<exists>p. ftruediv w s = Inr p \<and> \<not> flt p (Finite 0)"
proof -
  have "w = PInf \<or> w = NaN \<or> (\<exists>k\<ge>0. w = Finite k)"
    using assms(1) by (simp add: not_lt_zero_iff)
  moreover have "s = PInf \<or> s = NaN \<or> (\<exists>k>0. s = Finite k)"
    using assms(2,3) not_le_zero_iff [of s] by simp
  ultimately consider (ff) a b where "w = Finite a" "0 \<le> a" "s = Finite b" "0 < b"
    | (other) "w = PInf \<or> w = NaN \<or> s = PInf \<or> s = NaN"
    by blast
  then show ?thesis
  proof cases
    case ff
    then have "0 \<le> a * 2 ^ 1074" by simp
    then show ?thesis using ff fround_nonneg [of "a * 2 ^ 1074" b]
      by (auto simp: flt_def simp del: power_numeral)
  next
    case other
    then show ?thesis using assms
      by (cases w; cases s) (auto simp: flt_def feq_def)
  qed
qed

lemma fadd_pos:
  assumes "\<not> flt a (Finite 0) \<and> \<not> feq a (Finite 0)" "\<not> flt b (Finite 0) \<and> \<not> feq b (Finite 0)"
  shows "\<not> flt (fadd a b) (Finite 0) \<and> \<not> feq (fadd a b) (Finite 0)"
proof -
  consider (ff) x y where "a = Finite x" "0 < x" "b = Finite y" "0 < y"
    | (other) "a = PInf \<or> a = NaN \<or> b = PInf \<or> b = NaN"
    using assms by (auto simp: not_le_zero_iff)
  then show ?thesis
  proof cases
    case ff
    then have "1 \<le> x + y" by simp
    then show ?thesis using ff fround_pos [of 1 "x + y"]
      by (auto simp: flt_def feq_def)
  next
    case other
    then show ?thesis using assms
      by (cases a; cases b) (auto simp: flt_def feq_def)
  qed
qed

lemma set_dict_set: "set (dict_set d k v) \<subseteq> insert (k, v) (set d)"
  by (induction d) (auto split: if_splits)

lemma map_fst_dict_set:
  "map fst (dict_set d k v) = (if k \<in> fst ` set d then map fst d else map fst d @ [k])"
  by (induction d) (auto simp: rev_image_eqI)

lemma keys_dict_set: "fst ` set (dict_set d k v) = insert k (fst ` set d)"
proof -
  have "set (map fst (dict_set d k v)) = insert k (set (map fst d))"
    by (auto simp: map_fst_dict_set)
  then show ?thesis by simp
qed

lemma wf_dict_set: "wf_dict d \<Longrightarrow> wf_dict (dict_set d k v)"
  unfolding wf_dict_def
proof (induction d)
  case Nil
  then show ?case by simp
next
  case (Cons p d)
  obtain k' v' where p: "p = (k', v')" by (cases p)
  show ?case
  proof (cases "k' = k")
    case True
    then show ?thesis using Cons.prems p by simp
  next
    case False
    have "k' \<notin> fst ` set (dict_set d k v)"
      using Cons.prems p False by (simp add: keys_dict_set)
    then show ?thesis using Cons p False by simp
  qed
qed

lemma list_all_dict_set:
  "list_all P d \<Longrightarrow> P (k, v) \<Longrightarrow> list_all P (dict_set d k v)"
  using set_dict_set [of d k v] by (auto simp: list_all_iff)

lemma inv_dict_set:
  "inv d \<Longrightarrow> \<not> flt v (Finite 0) \<Longrightarrow> \<not> feq v (Finite 0) \<Longrightarrow> inv (dict_set d k v)"
  by (simp add: inv_def wf_dict_set no_weight_le_zero_def list_all_dict_set)

lemma inv_lookup:
  "inv d \<Longrightarrow> map_of d k = Some w \<Longrightarrow> \<not> flt w (Finite 0) \<and> \<not> feq w (Finite 0)"
  by (auto simp: inv_def no_weight_le_zero_def list_all_iff dest!: map_of_SomeD)

lemma inv_add:
  assumes "inv ws"
  shows "inv (snd (add ws key weight))"
proof (cases "flt weight (Finite 0) \<or> feq weight (Finite 0)")
  case True
  then show ?thesis using assms by (auto simp: add_def)
next
  case False
  then have w: "\<not> flt weight (Finite 0) \<and> \<not> feq weight (Finite 0)" by simp
  show ?thesis
  proof (cases "map_of ws key")
    case None
    then show ?thesis using assms w by (simp add: add_def inv_dict_set)
  next
    case (Some current)
    have "\<not> flt (fadd current weight) (Finite 0) \<and> \<not> feq (fadd current weight) (Finite 0)"
      using inv_lookup [OF assms Some] w by (rule fadd_pos)
    then show ?thesis using assms w Some by (simp add: add_def inv_dict_set)
  qed
qed

lemma inv_imul_loop:
  "inv acc \<Longrightarrow> no_weight_le_zero items \<Longrightarrow> \<not> flt scale (Finite 0)
   \<Longrightarrow> imul_loop items scale acc = Inr d \<Longrightarrow> inv d"
proof (induction items arbitrary: acc)
  case Nil
  then show ?case by simp
next
  case (Cons p items)
  obtain key weight where p: "p = (key, weight)" by (cases p)
  have w: "\<not> flt weight (Finite 0)" and rest: "no_weight_le_zero items"
    using Cons.prems(2) p by (simp_all add: no_weight_le_zero_def)
  have nn: "\<not> flt (fmul weight scale) (Finite 0)"
    using w Cons.prems(3) by (rule fmul_not_neg)
  show ?case
  proof (cases "feq (fmul weight scale) (Finite 0)")
    case True
    then show ?thesis using Cons p rest by simp
  next
    case False
    then have a: "inv (dict_set acc key (fmul weight scale))"
      using nn Cons.prems(1) by (simp add: inv_dict_set)
    show ?thesis
    proof (cases "py_in (fmul weight scale) [PInf, NaN]")
      case True
      then show ?thesis using Cons.prems(4) p False by (simp add: Let_def)
    next
      case nin: False
      have "imul_loop items scale (dict_set acc key (fmul weight scale)) = Inr d"
        using Cons.prems(4) p False nin by (simp add: Let_def)
      then show ?thesis using a rest Cons.prems(3) Cons.IH by blast
    qed
  qed
qed

lemma inv_Nil: "inv []"
  by (simp add: inv_def wf_dict_def no_weight_le_zero_def)

lemma inv_imul:
  assumes "inv ws"
  shows "inv (snd (imul ws scale))"
proof (cases "flt scale (Finite 0)")
  case True
  then show ?thesis using assms by (simp add: imul_def)
next
  case False
  have nz: "no_weight_le_zero ws" using assms by (simp add: inv_def)
  show ?thesis
  proof (cases "imul_loop ws scale []")
    case (Inl e)
    then show ?thesis using assms False by (simp add: imul_def)
  next
    case (Inr d)
    have "inv d" by (rule inv_imul_loop [OF inv_Nil nz False Inr])
    then show ?thesis using False Inr by (simp add: imul_def)
  qed
qed

lemma inv_itruediv_loop:
  "inv acc \<Longrightarrow> no_weight_le_zero items \<Longrightarrow> \<not> flt scale (Finite 0) \<Longrightarrow> \<not> feq scale (Finite 0)
   \<Longrightarrow> itruediv_loop items scale acc = Inr d \<Longrightarrow> inv d"
proof (induction items arbitrary: acc)
  case Nil
  then show ?case by simp
next
  case (Cons p items)
  obtain key weight where p: "p = (key, weight)" by (cases p)
  have w: "\<not> flt weight (Finite 0)" and rest: "no_weight_le_zero items"
    using Cons.prems(2) p by (simp_all add: no_weight_le_zero_def)
  obtain nw where nw: "ftruediv weight scale = Inr nw" "\<not> flt nw (Finite 0)"
    using ftruediv_not_neg [OF w Cons.prems(3,4)] by blast
  show ?case
  proof (cases "feq nw (Finite 0)")
    case True
    then show ?thesis using Cons p rest nw by simp
  next
    case False
    then have a: "inv (dict_set acc key nw)"
      using nw Cons.prems(1) by (simp add: inv_dict_set)
    show ?thesis
    proof (cases "py_in nw [PInf, NaN]")
      case True
      then show ?thesis using Cons.prems(5) p False nw by simp
    next
      case nin: False
      have "itruediv_loop items scale (dict_set acc key nw) = Inr d"
        using Cons.prems(5) p False nin nw by simp
      then show ?thesis using a rest Cons.prems(3,4) Cons.IH by blast
    qed
  qed
qed

lemma inv_itruediv:
  assumes "inv ws"
  shows "inv (snd (itruediv ws scale))"
proof (cases "feq scale (Finite 0) \<or> flt scale (Finite 0)")
  case True
  then show ?thesis using assms by (auto simp: itruediv_def)
next
  case False
  have nz: "no_weight_le_zero ws" using assms by (simp add: inv_def)
  show ?thesis
  proof (cases "itruediv_loop ws scale []")
    case (Inl e)
    then show ?thesis using assms False by (simp add: itruediv_def)
  next
    case (Inr d)
    have "inv d" using False by (intro inv_itruediv_loop [OF inv_Nil nz _ _ Inr]) simp_all
    then show ?thesis using False Inr by (simp add: itruediv_def)
  qed
qed

lemma inv_fold_set:
  "inv d \<Longrightarrow> \<not> flt v (Finite 0) \<Longrightarrow> \<not> feq v (Finite 0)
   \<Longrightarrow> inv (fold (\<lambda>key d. dict_set d key v) ks d)"
  by (induction ks arbitrary: d) (simp_all add: inv_dict_set)

lemma inv_clamp: "inv ws \<Longrightarrow> inv (snd (clamp ws limit))"
  by (simp add: clamp_def Let_def inv_fold_set)

lemma inv_copy_fold:
  "inv d \<Longrightarrow> no_weight_le_zero items
   \<Longrightarrow> inv (fold (\<lambda>(key, weight) d. dict_set d key weight) items d)"
proof (induction items arbitrary: d)
  case Nil
  then show ?case by simp
next
  case (Cons p items)
  then show ?case
    by (cases p) (simp add: no_weight_le_zero_def inv_dict_set)
qed

lemma inv_copy:
  assumes "inv ws"
  shows "inv (copy ws)"
proof -
  have "no_weight_le_zero ws" using assms by (simp add: inv_def)
  then show ?thesis unfolding copy_def by (rule inv_copy_fold [OF inv_Nil])
qed

lemma inv_update_keys:
  "\<forall>a. inv (h a) \<Longrightarrow> \<forall>a. inv (snd (update_keys h self ws ks) a)"
proof (induction ks arbitrary: h)
  case Nil
  then show ?case by simp
next
  case (Cons key ks)
  show ?case
  proof (cases "getitem (h ws) key")
    case (Inl e)
    then show ?thesis using Cons.prems by simp
  next
    case (Inr weight)
    obtain r d where ad: "add (h self) key weight = (r, d)" by (cases "add (h self) key weight")
    have "inv d" using inv_add [of "h self" key weight] Cons.prems ad by simp
    then have all: "\<forall>a. inv ((h(self := d)) a)" using Cons.prems by simp
    show ?thesis
    proof (cases r)
      case Returned
      have "\<forall>a. inv (snd (update_keys (h(self := d)) self ws ks) a)"
        using all by (rule Cons.IH)
      then show ?thesis using Returned Inr ad by simp
    next
      case (Raised e)
      then show ?thesis using all Inr ad by simp
    qed
  qed
qed

lemma inv_update:
  "\<forall>a. inv (h a) \<Longrightarrow> \<forall>a. inv (snd (update h self others) a)"
proof (induction others arbitrary: h)
  case Nil
  then show ?case by simp
next
  case (Cons x others)
  show ?case
  proof (cases x)
    case NotWS
    then show ?thesis using Cons.prems by simp
  next
    case (WS ws)
    obtain r h' where uk: "update_keys h self ws (keys (h ws)) = (r, h')"
      by (cases "update_keys h self ws (keys (h ws))")
    have all: "\<forall>a. inv (h' a)"
      using inv_update_keys [OF Cons.prems, of self ws "keys (h ws)"] uk by simp
    show ?thesis
    proof (cases r)
      case Returned
      have "\<forall>a. inv (snd (update h' self others) a)"
        using all by (rule Cons.IH)
      then show ?thesis using Returned uk WS by simp
    next
      case (Raised e)
      then show ?thesis using uk all WS by simp
    qed
  qed
qed

lemma inv_step: "\<forall>a. inv (h a) \<Longrightarrow> \<forall>a. inv (step h c a)"
proof (cases c)
  case (Update a others)
  assume "\<forall>a. inv (h a)"
  then show ?thesis using Update inv_update [of h a others] by simp
qed (simp_all add: inv_add inv_imul inv_itruediv inv_clamp inv_copy)

lemma inv_fold_step:
  "\<forall>a. inv (h a) \<Longrightarrow> \<forall>a. inv (fold (\<lambda>c h. step h c) calls h a)"
proof (induction calls arbitrary: h)
  case Nil
  then show ?case by simp
next
  case (Cons c calls)
  have "\<forall>a. inv (step h c a)" using Cons.prems by (rule inv_step)
  then show ?case using Cons.IH by simp
qed

text \<open>
  C1, as the code has it. In every WeightedSet reachable from the empty construction by
  any sequence of calls of \<^verbatim>\<open>add\<close>, \<^verbatim>\<open>scale_by\<close>, \<^verbatim>\<open>scale_by_inverse\<close>,
  \<^verbatim>\<open>clamp\<close>, \<^verbatim>\<open>copy\<close> and \<^verbatim>\<open>update\<close>, with any arguments, whether the calls
  return or raise, the keys are distinct and no key has a weight that is zero or less
  than zero. Finiteness is not kept: see \<open>reachable_not_finite\<close>.
\<close>

theorem reachable_weights_not_le_zero:
  "wf_dict (run calls a) \<and> no_weight_le_zero (run calls a)"
proof -
  have "\<forall>a. inv ((empty_heap :: 'k heap) a)" by (simp add: empty_heap_def inv_Nil)
  then have "\<forall>a. inv (run calls a)" unfolding run_def by (rule inv_fold_step)
  then show ?thesis by (simp add: inv_def)
qed

text \<open>
  C1 as stated fails: \<^verbatim>\<open>add("a", math.inf)\<close> on an empty WeightedSet returns and
  stores the infinite weight, so a reachable set does not satisfy I1.
\<close>

theorem reachable_not_finite:
  "run [Add 0 ''a'' PInf] 0 = [(''a'', PInf)] \<and> \<not> I1 (run [Add 0 ''a'' PInf] 0)"
  by (simp add: run_def empty_heap_def add_def flt_def feq_def I1_def fgt_def)

section \<open>Exact results\<close>

lemma fround_exact: "0 < d \<Longrightarrow> 0 \<le> k \<Longrightarrow> k < 2 ^ 53 \<Longrightarrow> fround (k * d) d = Finite k"
  by (simp add: fround_def round_pos_exact_small del: power_numeral)

lemma fround_small: "0 \<le> k \<Longrightarrow> k < 2 ^ 53 \<Longrightarrow> fround k 1 = Finite k"
  using fround_exact [of 1 k] by simp

lemma fmul_one: "0 \<le> k \<Longrightarrow> k < 2 ^ 53 \<Longrightarrow> fmul (Finite k) float_one = Finite k"
  unfolding float_one_def fmul.simps by (rule fround_exact) simp_all

lemma ftruediv_one: "0 \<le> k \<Longrightarrow> k < 2 ^ 53 \<Longrightarrow> ftruediv (Finite k) float_one = Inr (Finite k)"
proof -
  assume k: "0 \<le> k" "k < 2 ^ 53"
  have p: "(0::int) < 2 ^ 1074" by simp
  have "fround (k * 2 ^ 1074) (2 ^ 1074) = Finite k" using p k by (rule fround_exact)
  then show ?thesis unfolding float_one_def ftruediv.simps using p by (simp del: power_numeral)
qed

lemma float_one_cmp:
  "flt float_one (Finite 0) = False" "feq float_one (Finite 0) = False"
  "float_one \<noteq> NaN" "float_one \<noteq> Finite 0"
  by (simp_all add: float_one_def flt_def feq_def)

lemma inf_one: "fmul PInf float_one = PInf" "ftruediv PInf float_one = Inr PInf"
  by (simp_all add: float_one_def)

section \<open>Overflow leaves the mapping as it was\<close>

text \<open>
  C3. When \<^verbatim>\<open>scale_by\<close> or \<^verbatim>\<open>scale_by_inverse\<close> raises \<^verbatim>\<open>OverflowError\<close>, the mapping
  after the call is the mapping before the call: the new weights are collected in a
  dictionary of their own, which is assigned to \<^verbatim>\<open>self._weights\<close> only after the loop.
\<close>

theorem scale_overflow_atomic:
  "(imul ws s = (Raised OverflowError, ws') \<longrightarrow> ws' = ws)
   \<and> (itruediv ws d = (Raised OverflowError, ws'') \<longrightarrow> ws'' = ws)"
proof -
  have "imul ws s = (r, ws') \<Longrightarrow> r \<noteq> Returned \<Longrightarrow> ws' = ws" for r
    by (cases "imul_loop ws s []") (auto simp: imul_def split: if_splits)
  moreover have "itruediv ws d = (r, ws'') \<Longrightarrow> r \<noteq> Returned \<Longrightarrow> ws'' = ws" for r
    by (cases "itruediv_loop ws d []") (auto simp: itruediv_def split: if_splits)
  ultimately show ?thesis by blast
qed

theorem scale_overflow_atomic_witness:
  "imul [(''a'', Finite 3), (''b'', PInf)] float_one
     = (Raised OverflowError, [(''a'', Finite 3), (''b'', PInf)])
   \<and> itruediv [(''a'', Finite 3), (''b'', PInf)] float_one
     = (Raised OverflowError, [(''a'', Finite 3), (''b'', PInf)])"
proof -
  have a: "fst (imul [(''a'', Finite 3), (''b'', PInf)] float_one) = Raised OverflowError"
    by (simp add: imul_def float_one_cmp fmul_one inf_one feq_def py_in_def)
  have b: "fst (itruediv [(''a'', Finite 3), (''b'', PInf)] float_one) = Raised OverflowError"
    by (simp add: itruediv_def float_one_cmp ftruediv_one inf_one feq_def py_in_def)
  show ?thesis
    using a b
      scale_overflow_atomic [of "[(''a'', Finite 3), (''b'', PInf)]" float_one
        "snd (imul [(''a'', Finite 3), (''b'', PInf)] float_one)" float_one
        "snd (itruediv [(''a'', Finite 3), (''b'', PInf)] float_one)"]
    by (metis prod.collapse)
qed

section \<open>Clamping\<close>

lemma dict_set_present:
  "distinct (map fst d) \<Longrightarrow> k \<in> fst ` set d
   \<Longrightarrow> dict_set d k v = map (\<lambda>(k', w). (k', if k' = k then v else w)) d"
proof (induction d)
  case Nil
  then show ?case by simp
next
  case (Cons p d)
  obtain k' w' where p: "p = (k', w')" by (cases p)
  show ?case
  proof (cases "k' = k")
    case True
    then have "k \<notin> fst ` set d" using Cons.prems(1) p by simp
    then have "map (\<lambda>(k', w). (k', if k' = k then v else w)) d = d"
      by (induction d) (auto simp: rev_image_eqI)
    then show ?thesis using True p by simp
  next
    case False
    then have "k \<in> fst ` set d" using Cons.prems(2) p by auto
    then show ?thesis using Cons p False by simp
  qed
qed

lemma map_fst_set_weights:
  "map fst (map (\<lambda>(k', w). (k', f k' w)) d) = map fst d"
  by (induction d) auto

lemma fold_dict_set:
  "distinct (map fst d) \<Longrightarrow> set ks \<subseteq> fst ` set d
   \<Longrightarrow> fold (\<lambda>key d. dict_set d key v) ks d
       = map (\<lambda>(k', w). (k', if k' \<in> set ks then v else w)) d"
proof (induction ks arbitrary: d)
  case Nil
  then show ?case by simp
next
  case (Cons k ks)
  let ?d1 = "map (\<lambda>(k', w). (k', if k' = k then v else w)) d"
  have k: "k \<in> fst ` set d" using Cons.prems(2) by simp
  have d1: "dict_set d k v = ?d1" using Cons.prems(1) k by (rule dict_set_present)
  have fst1: "map fst ?d1 = map fst d" by (rule map_fst_set_weights)
  have dist1: "distinct (map fst ?d1)" unfolding fst1 by (rule Cons.prems(1))
  have "fst ` set ?d1 = fst ` set d" using fst1 by (metis set_map)
  then have sub1: "set ks \<subseteq> fst ` set ?d1" using Cons.prems(2) by simp
  have "fold (\<lambda>key d. dict_set d key v) ks ?d1
          = map (\<lambda>(k', w). (k', if k' \<in> set ks then v else w)) ?d1"
    using dist1 sub1 by (rule Cons.IH)
  also have "\<dots> = map (\<lambda>(k', w). (k', if k' \<in> set (k # ks) then v else w)) d"
    by (induction d) auto
  finally show ?case using d1 by simp
qed

lemma flt_irrefl: "\<not> flt x x"
  by (cases x) (simp_all add: flt_def)

text \<open>
  C8. For every WeightedSet and every limit greater than zero, \<^verbatim>\<open>clamp(limit)\<close> returns,
  sets the weight of every key whose weight exceeds the limit to the limit, leaves every
  other weight and the order of the keys as they are, and a second \<^verbatim>\<open>clamp(limit)\<close>
  gives the same result as the first.
\<close>

theorem clamp_caps_and_is_idempotent:
  assumes "wf_dict ws" and "flt (Finite 0) limit"
  shows "clamp ws limit
           = (Returned, map (\<lambda>(key, weight). (key, if fgt weight limit then limit else weight)) ws)
         \<and> clamp (snd (clamp ws limit)) limit = clamp ws limit"
proof -
  let ?cap = "\<lambda>(key, weight). (key, if fgt weight limit then limit else weight)"
  have guard: "\<not> feq limit (Finite 0)" "\<not> flt limit (Finite 0)"
    using assms(2) by (cases limit; simp add: flt_def feq_def)+
  have step: "clamp d limit = (Returned, map ?cap d)" if d: "distinct (map fst d)" for d :: "'a dict"
  proof -
    let ?ks = "map fst (filter (\<lambda>(key, weight). fgt weight limit) d)"
    have sub: "set ?ks \<subseteq> fst ` set d" by auto
    have "fold (\<lambda>key d. dict_set d key limit) ?ks d
            = map (\<lambda>(k', w). (k', if k' \<in> set ?ks then limit else w)) d"
      using d sub by (rule fold_dict_set)
    also have "\<dots> = map ?cap d"
    proof (rule map_cong [OF refl])
      fix p assume p: "p \<in> set d"
      obtain k w where kw: "p = (k, w)" by (cases p)
      have "k \<in> set ?ks \<longleftrightarrow> fgt w limit"
      proof
        assume "k \<in> set ?ks"
        then obtain w' where w': "(k, w') \<in> set d" "fgt w' limit" by auto
        then have "w' = w" using d p kw by (metis eq_key_imp_eq_value)
        then show "fgt w limit" using w' by simp
      next
        assume "fgt w limit"
        then show "k \<in> set ?ks" using p kw by force
      qed
      then show "(case p of (k', w) \<Rightarrow> (k', if k' \<in> set ?ks then limit else w)) = ?cap p"
        using kw by simp
    qed
    finally show ?thesis using guard by (simp add: clamp_def Let_def)
  qed
  have d: "distinct (map fst ws)" using assms(1) by (simp add: wf_dict_def)
  have first: "clamp ws limit = (Returned, map ?cap ws)" using d by (rule step)
  have e: "map fst (map ?cap ws) = map fst ws" by (induction ws) auto
  have "distinct (map fst (map ?cap ws))" unfolding e by (rule d)
  then have "clamp (map ?cap ws) limit = (Returned, map ?cap (map ?cap ws))" by (rule step)
  moreover have "map ?cap (map ?cap ws) = map ?cap ws"
    by (induction ws) (auto simp: fgt_def flt_irrefl)
  ultimately show ?thesis using first by simp
qed

theorem clamp_caps_and_is_idempotent_witness:
  "wf_dict [(''a'', Finite 5), (''b'', Finite 57)] \<and> flt (Finite 0) (Finite 5)
   \<and> clamp [(''a'', Finite 5), (''b'', Finite 57)] (Finite 5)
       = (Returned, [(''a'', Finite 5), (''b'', Finite 5)])
   \<and> clamp [(''a'', Finite 5), (''b'', Finite 5)] (Finite 5)
       = (Returned, [(''a'', Finite 5), (''b'', Finite 5)])"
proof -
  have w: "wf_dict [(''a'', Finite 5), (''b'', Finite 57)]" by (simp add: wf_dict_def)
  have l: "flt (Finite 0) (Finite 5)" by (simp add: flt_def)
  note t = clamp_caps_and_is_idempotent [OF w l]
  have a: "clamp [(''a'', Finite 5), (''b'', Finite 57)] (Finite 5)
             = (Returned, [(''a'', Finite 5), (''b'', Finite 5)])"
    using t by (simp add: fgt_def flt_def)
  have b: "clamp [(''a'', Finite 5), (''b'', Finite 5)] (Finite 5)
             = (Returned, [(''a'', Finite 5), (''b'', Finite 5)])"
    using t unfolding a by simp
  show ?thesis using w l a b by simp
qed

section \<open>The type check of update\<close>

text \<open>
  C10. \<^verbatim>\<open>update\<close> checks its arguments one at a time: when the arguments before the
  first one that is not a WeightedSet have been merged without an error, the call raises
  \<^verbatim>\<open>TypeError\<close> and leaves the heap as the merge of those arguments left it.
\<close>

theorem update_type_error_after_merge:
  "update h self pre = (Returned, h')
   \<Longrightarrow> update h self (pre @ NotWS # rest) = (Raised TypeError, h')"
proof (induction pre arbitrary: h)
  case Nil
  then show ?case by simp
next
  case (Cons x pre)
  show ?case
  proof (cases x)
    case NotWS
    then show ?thesis using Cons.prems by simp
  next
    case (WS ws)
    obtain r h1 where uk: "update_keys h self ws (keys (h ws)) = (r, h1)"
      by (cases "update_keys h self ws (keys (h ws))")
    show ?thesis
    proof (cases r)
      case Returned
      then have "update h1 self pre = (Returned, h')" using Cons.prems WS uk by simp
      then have "update h1 self (pre @ NotWS # rest) = (Raised TypeError, h')" by (rule Cons.IH)
      then show ?thesis using WS uk Returned by simp
    next
      case (Raised e)
      then show ?thesis using Cons.prems WS uk by simp
    qed
  qed
qed

lemma keys_single: "keys [(k, w)] = [k]"
  by (simp add: keys_def sorted_items_def sorted_py_def list_sort_def)

theorem update_type_error_after_merge_witness:
  "update (empty_heap(0 := [(''a'', Finite 1)], 1 := [(''b'', Finite 2)])) 0 [WS 1]
     = (Returned, (empty_heap(0 := [(''a'', Finite 1)], 1 := [(''b'', Finite 2)]))
                    (0 := [(''a'', Finite 1), (''b'', Finite 2)]))
   \<and> update (empty_heap(0 := [(''a'', Finite 1)], 1 := [(''b'', Finite 2)])) 0 ([WS 1] @ NotWS # [])
     = (Raised TypeError, (empty_heap(0 := [(''a'', Finite 1)], 1 := [(''b'', Finite 2)]))
                    (0 := [(''a'', Finite 1), (''b'', Finite 2)]))"
proof -
  let ?h = "(empty_heap :: string heap)(0 := [(''a'', Finite 1)], 1 := [(''b'', Finite 2)])"
  have a: "update ?h 0 [WS 1] = (Returned, ?h(0 := [(''a'', Finite 1), (''b'', Finite 2)]))"
    by (simp add: keys_single getitem_def add_def flt_def feq_def)
  show ?thesis using a update_type_error_after_merge [OF a, of "[]"] by simp
qed

section \<open>Adding twice\<close>

lemma map_of_dict_set_same: "map_of (dict_set d k v) k = Some v"
  by (induction d) auto

lemma fle_zero_cases:
  "fle (Finite 0) w \<Longrightarrow>
     w = Finite 0 \<or> (flt (Finite 0) w \<and> \<not> flt w (Finite 0) \<and> \<not> feq w (Finite 0))"
  by (cases w) (auto simp: fle_def flt_def feq_def)

lemma fadd_zero_left: "is_double w \<Longrightarrow> fadd (Finite 0) w = w"
  by (cases w) simp_all

lemma fadd_zero_right: "is_double w \<Longrightarrow> fadd w (Finite 0) = w"
  by (cases w) simp_all

lemma add_new:
  "map_of ws key = None \<Longrightarrow> \<not> flt w (Finite 0) \<Longrightarrow> \<not> feq w (Finite 0)
   \<Longrightarrow> add ws key w = (Returned, dict_set ws key w)"
  by (simp add: add_def)

lemma add_present:
  "map_of ws key = Some current \<Longrightarrow> \<not> flt w (Finite 0) \<Longrightarrow> \<not> feq w (Finite 0)
   \<Longrightarrow> add ws key w = (Returned, dict_set ws key (fadd current w))"
  by (simp add: add_def)

lemma add_zero: "add ws key (Finite 0) = (Returned, ws)"
  by (simp add: add_def flt_def feq_def)

lemma getitem_dict_set: "getitem (dict_set d k v) k = Inr v"
  by (simp add: getitem_def map_of_dict_set_same)

text \<open>
  C6. When \<^verbatim>\<open>key\<close> is not in the set and \<open>w1\<close>, \<open>w2\<close> are floats that are zero or
  greater, one of them greater than zero, \<^verbatim>\<open>add(key, w1)\<close> and then \<^verbatim>\<open>add(key, w2)\<close>
  both return, and then \<^verbatim>\<open>get(key)\<close> is the float sum \<open>w1 + w2\<close>.
\<close>

theorem add_twice_sums:
  assumes absent: "map_of ws key = None"
    and w1: "fle (Finite 0) w1" and w2: "fle (Finite 0) w2"
    and pos: "flt (Finite 0) w1 \<or> flt (Finite 0) w2"
    and d1: "is_double w1" and d2: "is_double w2"
  shows "fst (add ws key w1) = Returned
         \<and> fst (add (snd (add ws key w1)) key w2) = Returned
         \<and> getitem (snd (add (snd (add ws key w1)) key w2)) key = Inr (fadd w1 w2)"
proof (cases "w1 = Finite 0")
  case True
  then have "flt (Finite 0) w2" using pos by (simp add: flt_def)
  then have p2: "\<not> flt w2 (Finite 0)" "\<not> feq w2 (Finite 0)"
    using fle_zero_cases [OF w2] by (auto simp: flt_def)
  show ?thesis
    using True add_new [OF absent p2] d2 by (simp add: add_zero getitem_dict_set fadd_zero_left)
next
  case False
  then have p1: "\<not> flt w1 (Finite 0)" "\<not> feq w1 (Finite 0)"
    using fle_zero_cases [OF w1] by auto
  have a1: "add ws key w1 = (Returned, dict_set ws key w1)" using absent p1 by (rule add_new)
  have m1: "map_of (dict_set ws key w1) key = Some w1" by (rule map_of_dict_set_same)
  show ?thesis
  proof (cases "w2 = Finite 0")
    case True
    then show ?thesis using a1 d1 by (simp add: add_zero getitem_dict_set fadd_zero_right)
  next
    case w2nz: False
    then have p2: "\<not> flt w2 (Finite 0)" "\<not> feq w2 (Finite 0)"
      using fle_zero_cases [OF w2] by auto
    have "add (dict_set ws key w1) key w2
            = (Returned, dict_set (dict_set ws key w1) key (fadd w1 w2))"
      using m1 p2 by (rule add_present)
    then show ?thesis using a1 by (simp add: getitem_dict_set)
  qed
qed

theorem add_twice_sums_witness:
  "map_of [] ''a'' = None \<and> fle (Finite 0) (Finite 1) \<and> fle (Finite 0) (Finite 2)
   \<and> flt (Finite 0) (Finite 1) \<and> is_double (Finite 1) \<and> is_double (Finite 2)
   \<and> fadd (Finite 1) (Finite 2) = Finite 3
   \<and> getitem (snd (add (snd (add [] ''a'' (Finite 1))) ''a'' (Finite 2))) ''a'' = Inr (Finite 3)"
proof -
  have a: "map_of ([] :: (string \<times> pyfloat) list) ''a'' = None" by simp
  have b: "fle (Finite 0) (Finite 1)" "fle (Finite 0) (Finite 2)" "flt (Finite 0) (Finite 1)"
    by (simp_all add: fle_def flt_def)
  have c: "is_double (Finite 1)" "is_double (Finite 2)" by (simp_all add: fround_small)
  have s: "fadd (Finite 1) (Finite 2) = Finite 3" using fround_small [of 3] by simp
  show ?thesis
    using a b c s add_twice_sums [OF a b(1) b(2) disjI1 [OF b(3)] c] by simp
qed

end
